theory Spec2Isabelle
  imports Complex_Main "HOL-Library.Word" "HOL-Library.Log_Nat"
begin

section \<open>Bitcoin block headers: compact targets, difficulty and the block hash\<close>

text \<open>
  A shallow embedding of \<^verbatim>\<open>blockchain.py\<close>, which is Python 2 source (it uses the
  statement \<^verbatim>\<open>raise ValueError, '...'\<close>). Python's unbounded integers are \<^typ>\<open>int\<close>, a byte
  string is a list of 8-bit words, a raised exception is the \<open>Inl\<close> branch of a sum, and
  a call that never returns is \<open>None\<close>. Python 2 has two types of byte string, \<^verbatim>\<open>str\<close>
  and \<^verbatim>\<open>bytearray\<close>; they behave alike except in \<^verbatim>\<open>b''.join\<close>, which accepts a \<^verbatim>\<open>str\<close>
  and raises TypeError on a \<^verbatim>\<open>bytearray\<close>. Where a function reaches that call, the model
  has one definition for each type of argument.
  A number handed to \<^verbatim>\<open>compact\<close> is an integer or a \<^verbatim>\<open>Decimal\<close>; both are exact
  rationals, so the model uses \<^typ>\<open>rat\<close> for them.
\<close>

type_synonym byte = "8 word"

datatype error =
    IndexError
  | ValueError string
  | StructError
  | TypeError
  | DivisionByZero
  | InvalidOperation

subsection \<open>bytes_to_long\<close>

text \<open>
  \<^verbatim>\<open>binascii.hexlify\<close> writes two hexadecimal digits per byte, high nibble first; the
  model keeps the digits as their values. \<^verbatim>\<open>long(s, 16)\<close> reads them back, and raises
  ValueError on the empty string.
\<close>

definition hexlify :: "byte list \<Rightarrow> nat list" where
  "hexlify data = concat (map (\<lambda>b. [unat b div 16, unat b mod 16]) data)"

definition long16 :: "nat list \<Rightarrow> error + int" where
  "long16 digits =
     (if digits = [] then Inl (ValueError ''invalid literal for long() with base 16'')
      else Inr (foldl (\<lambda>acc d. 16 * acc + int d) 0 digits))"

definition bytes_to_long :: "byte list \<Rightarrow> error + int" where
  "bytes_to_long value = long16 (hexlify value)"

subsection \<open>compact and uncompact\<close>

text \<open>\<^verbatim>\<open>long(number)\<close> truncates a Decimal towards zero and leaves an integer alone.\<close>

definition long :: "rat \<Rightarrow> int" where
  "long x = (if 0 \<le> x then \<lfloor>x\<rfloor> else - \<lfloor>- x\<rfloor>)"

text \<open>
  The first loop of \<^verbatim>\<open>compact\<close>:
  \<^verbatim>\<open>while number: number, byte = divmod(long(number), 256); base256.insert(0, byte)\<close>.
  Python's \<^verbatim>\<open>divmod\<close> rounds towards minus infinity, as \<open>div\<close> and \<open>mod\<close> on \<^typ>\<open>int\<close> do.
  The loop need not end, so it is a partial function: \<open>None\<close> is "never returns".
\<close>

partial_function (option) compact_loop :: "rat \<Rightarrow> int list \<Rightarrow> int list option" where
  "compact_loop number base256 =
     (if number \<noteq> 0
      then compact_loop (of_int (long number div 256)) (long number mod 256 # base256)
      else Some base256)"

declare compact_loop.simps [code]

text \<open>\<^verbatim>\<open>bytearray(list)\<close> raises ValueError for an element outside \<open>0..255\<close>.\<close>

definition bytearray :: "int list \<Rightarrow> error + byte list" where
  "bytearray xs =
     (if list_all (\<lambda>x. 0 \<le> x \<and> x < 256) xs then Inr (map of_int xs)
      else Inl (ValueError ''byte must be in range(0, 256)''))"

text \<open>
  The rest of \<^verbatim>\<open>compact\<close>, after the loop: \<^verbatim>\<open>base256[0]\<close> raises IndexError on the
  empty list; the padding loop appends zeros up to three entries.
\<close>

definition compact_tail :: "int list \<Rightarrow> error + byte list" where
  "compact_tail base256 =
     (case base256 of
        [] \<Rightarrow> Inl IndexError
      | b0 # _ \<Rightarrow>
          (let base256' = (if b0 > 127 then 0 # base256 else base256);
               len = length base256';
               base256'' = base256' @ replicate (3 - len) 0
           in bytearray (int len # take 3 base256'')))"

definition compact :: "rat \<Rightarrow> (error + byte list) option" where
  "compact number = map_option compact_tail (compact_loop number [])"

text \<open>
  \<^verbatim>\<open>uncompact\<close>: \<^verbatim>\<open>value[0]\<close> raises IndexError on the empty string; the mantissa is
  padded with zero bytes when it is shorter than the length byte says, and is otherwise
  used as it is.
\<close>

definition uncompact :: "byte list \<Rightarrow> error + int" where
  "uncompact value =
     (case value of
        [] \<Rightarrow> Inl IndexError
      | len # value' \<Rightarrow>
          bytes_to_long
            (if length value' < unat len
             then value' @ replicate (unat len - length value') 0
             else value'))"

text \<open>
  \<^verbatim>\<open>uncompact\<close> when its argument is a \<^verbatim>\<open>bytearray\<close>, as the value \<^verbatim>\<open>compact\<close> returns is:
  \<^verbatim>\<open>value[0]\<close> is already an integer, \<^verbatim>\<open>value[1:]\<close> is a \<^verbatim>\<open>bytearray\<close>, and when the mantissa is
  shorter than the length byte says, \<^verbatim>\<open>b''.join((value, ...))\<close> raises TypeError, its first
  item not being a \<^verbatim>\<open>str\<close>. Otherwise nothing is joined and the mantissa is read as it is.
\<close>

definition uncompact_bytearray :: "byte list \<Rightarrow> error + int" where
  "uncompact_bytearray value =
     (case value of
        [] \<Rightarrow> Inl IndexError
      | len # value' \<Rightarrow>
          (if length value' < unat len then Inl TypeError else bytes_to_long value'))"

definition MAX_TARGET :: int where
  "MAX_TARGET = projr (uncompact [0x1d, 0x00, 0xff, 0xff])"

text \<open>
  What the specification says \<^verbatim>\<open>uncompact\<close> computes on a 4-byte input: the mantissa
  bytes zero-extended on the right to \<open>b[0]\<close> bytes, or cut to their first \<open>b[0]\<close> bytes,
  read as a big-endian number.
\<close>

definition big_endian :: "byte list \<Rightarrow> int" where
  "big_endian bs = foldl (\<lambda>acc b. 256 * acc + uint b) 0 bs"

definition uncompact_spec :: "byte list \<Rightarrow> int" where
  "uncompact_spec b =
     (let len = unat (hd b); mantissa = tl b
      in big_endian (take len (mantissa @ replicate (len - length mantissa) 0)))"

subsection \<open>The decimal context\<close>

text \<open>
  The \<^verbatim>\<open>decimal\<close> module is the environment of the program. Its thread-wide context is
  the state the conversions act on; the model keeps the precision, and takes the
  module's defaults for the rest: results are rounded half-even to \<open>prec\<close> significant
  digits, exponents are unbounded, and DivisionByZero and InvalidOperation are trapped,
  that is, raised.
\<close>

record decimal_context =
  prec :: nat

definition round_half_even :: "rat \<Rightarrow> int" where
  "round_half_even x =
     (let f = \<lfloor>x\<rfloor>; r = x - of_int f
      in if r < 1 / 2 then f else if 1 / 2 < r then f + 1 else if even f then f else f + 1)"

text \<open>The exponent of the leading decimal digit of a positive number.\<close>

definition adjusted :: "rat \<Rightarrow> int" where
  "adjusted x =
     (let k = int (floorlog 10 (nat (fst (quotient_of x))))
            - int (floorlog 10 (nat (snd (quotient_of x))))
      in if 10 powi k \<le> x then k else k - 1)"

text \<open>Rounding to a multiple of \<open>10^q\<close>, and to \<open>p\<close> significant digits.\<close>

definition rescale :: "int \<Rightarrow> rat \<Rightarrow> rat" where
  "rescale q x = of_int (round_half_even (x / 10 powi q)) * 10 powi q"

definition decimal_fix :: "nat \<Rightarrow> rat \<Rightarrow> rat" where
  "decimal_fix p x =
     (if x = 0 then 0 else sgn x * rescale (adjusted \<bar>x\<bar> - int p + 1) \<bar>x\<bar>)"

definition decimal_divide :: "decimal_context \<Rightarrow> rat \<Rightarrow> rat \<Rightarrow> error + rat" where
  "decimal_divide ctx a b =
     (if b = 0 then (if a = 0 then Inl InvalidOperation else Inl DivisionByZero)
      else Inr (decimal_fix (prec ctx) (a / b)))"

subsection \<open>enough_decimal_precision\<close>

text \<open>The default argument \<^verbatim>\<open>len(str(2 ** 256))\<close>: the number of decimal digits of \<open>2^256\<close>.\<close>

definition default_digits :: nat where
  "default_digits = floorlog 10 (2 ^ 256)"

text \<open>
  The generator up to its \<^verbatim>\<open>yield\<close>: it returns the saved context and the context now
  in force. The statement after the \<^verbatim>\<open>yield\<close> puts the saved context back.
\<close>

definition enough_decimal_precision_enter ::
    "nat \<Rightarrow> decimal_context \<Rightarrow> decimal_context \<times> decimal_context" where
  "enough_decimal_precision_enter digits ctx =
     (let orig_context = ctx
      in if prec orig_context < digits
         then (orig_context, orig_context\<lparr>prec := digits\<rparr>)
         else (orig_context, ctx))"

definition enough_decimal_precision_exit ::
    "decimal_context \<Rightarrow> decimal_context \<Rightarrow> decimal_context" where
  "enough_decimal_precision_exit orig_context ctx = orig_context"

text \<open>
  \<^verbatim>\<open>with enough_decimal_precision(): body\<close>. When the body ends normally (also by
  \<^verbatim>\<open>return\<close>), \<^verbatim>\<open>contextlib\<close> resumes the generator after its \<^verbatim>\<open>yield\<close>. When the body
  raises, the exception is thrown into the generator at the \<^verbatim>\<open>yield\<close>; the generator
  has no \<^verbatim>\<open>try\<close> around it, so the exception leaves the generator there and the
  statement after the \<^verbatim>\<open>yield\<close> is not run.
\<close>

definition with_enough_decimal_precision ::
    "(decimal_context \<Rightarrow> ((error + 'a) \<times> decimal_context) option)
      \<Rightarrow> decimal_context \<Rightarrow> ((error + 'a) \<times> decimal_context) option" where
  "with_enough_decimal_precision body ctx =
     (case enough_decimal_precision_enter default_digits ctx of
        (orig_context, ctx1) \<Rightarrow>
          (case body ctx1 of
             None \<Rightarrow> None
           | Some (Inl e, ctx2) \<Rightarrow> Some (Inl e, ctx2)
           | Some (Inr v, ctx2) \<Rightarrow> Some (Inr v, enough_decimal_precision_exit orig_context ctx2)))"

subsection \<open>bits_to_difficulty and difficulty_to_bits\<close>

definition bits_to_difficulty ::
    "byte list \<Rightarrow> decimal_context \<Rightarrow> ((error + rat) \<times> decimal_context) option" where
  "bits_to_difficulty bits =
     with_enough_decimal_precision
       (\<lambda>ctx. case uncompact bits of
                Inl e \<Rightarrow> Some (Inl e, ctx)
              | Inr target \<Rightarrow> Some (decimal_divide ctx (of_int MAX_TARGET) (of_int target), ctx))"

definition difficulty_to_bits ::
    "rat \<Rightarrow> decimal_context \<Rightarrow> ((error + byte list) \<times> decimal_context) option" where
  "difficulty_to_bits difficulty =
     with_enough_decimal_precision
       (\<lambda>ctx. case decimal_divide ctx (of_int MAX_TARGET) difficulty of
                Inl e \<Rightarrow> Some (Inl e, ctx)
              | Inr number \<Rightarrow> map_option (\<lambda>r. (r, ctx)) (compact number))"

text \<open>\<^verbatim>\<open>bits_to_difficulty\<close> when its argument is a \<^verbatim>\<open>bytearray\<close>.\<close>

definition bits_to_difficulty_bytearray ::
    "byte list \<Rightarrow> decimal_context \<Rightarrow> ((error + rat) \<times> decimal_context) option" where
  "bits_to_difficulty_bytearray bits =
     with_enough_decimal_precision
       (\<lambda>ctx. case uncompact_bytearray bits of
                Inl e \<Rightarrow> Some (Inl e, ctx)
              | Inr target \<Rightarrow> Some (decimal_divide ctx (of_int MAX_TARGET) (of_int target), ctx))"

text \<open>
  \<^verbatim>\<open>bits_to_difficulty(compact(target))\<close>, keeping the result only. \<^verbatim>\<open>compact\<close> returns a
  \<^verbatim>\<open>bytearray\<close>.
\<close>

definition difficulty_of_target :: "int \<Rightarrow> decimal_context \<Rightarrow> (error + rat) option" where
  "difficulty_of_target target ctx =
     (case compact (of_int target) of
        None \<Rightarrow> None
      | Some (Inl e) \<Rightarrow> Some (Inl e)
      | Some (Inr bits) \<Rightarrow> map_option fst (bits_to_difficulty_bytearray bits ctx))"

subsection \<open>BlockHeader.calculate_hash\<close>

text \<open>
  The fields of a header. The byte-string fields are \<^verbatim>\<open>str\<close> values, as \<^verbatim>\<open>unhexlify\<close> gives
  them to \<^verbatim>\<open>from_dict\<close>. The stored calendar time is kept abstract; \<open>mktime\<close>, the
  composition \<^verbatim>\<open>time.mktime(self.time.timetuple())\<close>, depends on the local time zone and
  is a parameter, as is the hash implementation \<open>sha_impl\<close>, which maps a message to its
  digest.
\<close>

record 'tm BlockHeader =
  height :: "int option"
  version :: int
  previousblockhash :: "byte list"
  merkleroot :: "byte list"
  time :: 'tm
  bits :: "byte list"
  nonce :: int
  hash :: "byte list option"

text \<open>\<^verbatim>\<open>struct.pack('<L', v)\<close>: four bytes, least significant first; an error out of range.\<close>

definition pack_L :: "int \<Rightarrow> error + byte list" where
  "pack_L v =
     (if 0 \<le> v \<and> v < 2 ^ 32
      then Inr [of_int v, of_int (v div 2 ^ 8), of_int (v div 2 ^ 16), of_int (v div 2 ^ 24)]
      else Inl StructError)"

definition message :: "('tm \<Rightarrow> int) \<Rightarrow> 'tm BlockHeader \<Rightarrow> error + byte list" where
  "message mktime self =
     (case pack_L (version self) of
        Inl e \<Rightarrow> Inl e
      | Inr v \<Rightarrow>
          (case pack_L (mktime (time self)) of
             Inl e \<Rightarrow> Inl e
           | Inr t \<Rightarrow>
               (case pack_L (nonce self) of
                  Inl e \<Rightarrow> Inl e
                | Inr n \<Rightarrow>
                    Inr (v @ rev (previousblockhash self) @ rev (merkleroot self)
                         @ t @ rev (bits self) @ n))))"

definition calculate_hash ::
    "(byte list \<Rightarrow> byte list) \<Rightarrow> ('tm \<Rightarrow> int) \<Rightarrow> 'tm BlockHeader
      \<Rightarrow> (error + byte list) \<times> 'tm BlockHeader" where
  "calculate_hash sha_impl mktime self =
     (case message mktime self of
        Inl e \<Rightarrow> (Inl e, self)
      | Inr m \<Rightarrow>
          (let h = rev (sha_impl (sha_impl m))
           in case bytes_to_long h of
                Inl e \<Rightarrow> (Inl e, self)
              | Inr candidate \<Rightarrow>
                  (case uncompact (bits self) of
                     Inl e \<Rightarrow> (Inl e, self)
                   | Inr target \<Rightarrow>
                       if candidate > target
                       then (Inl (ValueError ''Hash does not meet required difficulty''), self)
                       else (Inr h, self\<lparr>hash := Some h\<rparr>))))"

subsection \<open>Composite calls\<close>

text \<open>
  \<^verbatim>\<open>uncompact(compact(n))\<close> for an integer \<open>n\<close>; \<^verbatim>\<open>uncompact\<close> is handed the \<^verbatim>\<open>bytearray\<close>
  that \<^verbatim>\<open>compact\<close> returns.
\<close>

definition round_trip :: "int \<Rightarrow> (error + int) option" where
  "round_trip n =
     (case compact (of_int n) of
        None \<Rightarrow> None
      | Some (Inl e) \<Rightarrow> Some (Inl e)
      | Some (Inr b) \<Rightarrow> Some (uncompact_bytearray b))"

subsection \<open>What the loop of compact builds\<close>

text \<open>
  Closed forms used to state results about \<^verbatim>\<open>compact\<close>: the base-256 digits of a
  positive number, most significant first; the number a digit list stands for; the list
  after the zero byte is put in front of a leading byte above 127; and the length byte
  \<^verbatim>\<open>compact\<close> stores.
\<close>

function base256_of :: "int \<Rightarrow> int list" where
  "base256_of n = (if 0 < n then base256_of (n div 256) @ [n mod 256] else [])"
  by pat_completeness auto
termination
  by (relation "measure nat") auto

declare base256_of.simps [simp del]

definition val256 :: "int list \<Rightarrow> int" where
  "val256 ds = foldl (\<lambda>acc d. 256 * acc + d) 0 ds"

definition sign_padded :: "int list \<Rightarrow> int list" where
  "sign_padded ds = (if hd ds > 127 then 0 # ds else ds)"

definition compact_length :: "int \<Rightarrow> nat" where
  "compact_length n = length (sign_padded (base256_of n))"

subsection \<open>Example inputs\<close>

text \<open>
  A header shaped like the first block of the chain, its calendar time given as its Unix
  timestamp (so that \<open>mktime\<close> is the identity), and two stand-ins for a hash
  implementation, each returning a fixed 32-byte digest.
\<close>

definition example_header :: "int BlockHeader" where
  "example_header =
     \<lparr>height = None, version = 1, previousblockhash = replicate 32 0,
      merkleroot = replicate 32 0, time = 1231006505, bits = [0x1d, 0x00, 0xff, 0xff],
      nonce = 2083236893, hash = None\<rparr>"


definition ff_digest :: "byte list \<Rightarrow> byte list" where
  "ff_digest m = replicate 32 255"

section \<open>Properties\<close>

subsection \<open>Evaluating the codec\<close>

lemma default_digits_eq: "default_digits = 78"
proof -
  have "floorlog 10 (2 ^ 256) \<le> (78::nat)"
    by (rule floorlog_leI) simp_all
  moreover have "(78::nat) \<le> floorlog 10 (2 ^ 256)"
    by (rule floorlog_geI) simp_all
  ultimately show ?thesis
    unfolding default_digits_def by (rule antisym)
qed

lemma MAX_TARGET_eq: "MAX_TARGET = 65535 * 256 ^ 26"
  unfolding MAX_TARGET_def by code_simp

subsection \<open>Byte strings as numbers\<close>

lemma hexlify_fold:
  "foldl (\<lambda>acc d. 16 * acc + int d) a (hexlify bs) = foldl (\<lambda>acc b. 256 * acc + uint b) a bs"
proof (induction bs arbitrary: a)
  case Nil
  then show ?case by (simp add: hexlify_def)
next
  case (Cons b bs)
  have eq: "16 * (16 * a + int (unat b div 16)) + int (unat b mod 16) = 256 * a + uint b"
    by (simp add: zdiv_int zmod_int)
  have "hexlify (b # bs) = [unat b div 16, unat b mod 16] @ hexlify bs"
    by (simp add: hexlify_def)
  then have "foldl (\<lambda>acc d. 16 * acc + int d) a (hexlify (b # bs))
      = foldl (\<lambda>acc d. 16 * acc + int d)
          (16 * (16 * a + int (unat b div 16)) + int (unat b mod 16)) (hexlify bs)"
    by simp
  also have "\<dots> = foldl (\<lambda>acc b. 256 * acc + uint b) (256 * a + uint b) bs"
    unfolding eq by (rule Cons.IH)
  finally show ?case by simp
qed

lemma hexlify_Nil_iff: "hexlify bs = [] \<longleftrightarrow> bs = []"
  by (cases bs) (simp_all add: hexlify_def)

lemma bytes_to_long_eq:
  "bytes_to_long bs =
     (if bs = [] then Inl (ValueError ''invalid literal for long() with base 16'')
      else Inr (big_endian bs))"
  by (simp add: bytes_to_long_def long16_def big_endian_def hexlify_fold hexlify_Nil_iff)

lemma big_endian_snoc: "big_endian (xs @ [x]) = 256 * big_endian xs + uint x"
  by (simp add: big_endian_def)

lemma big_endian_append: "big_endian (xs @ ys) = big_endian xs * 256 ^ length ys + big_endian ys"
proof (induction ys rule: rev_induct)
  case Nil then show ?case by (simp add: big_endian_def)
next
  case (snoc y ys)
  have "big_endian (xs @ ys @ [y]) = 256 * big_endian (xs @ ys) + uint y"
    using big_endian_snoc[of "xs @ ys" y] by simp
  then show ?case by (simp add: snoc.IH big_endian_snoc algebra_simps)
qed


lemma big_endian_replicate0: "big_endian (replicate n 0) = 0"
  unfolding big_endian_def by (induction n) simp_all

lemma uncompact_4:
  "uncompact [l, a, b, c] = Inr (big_endian [a, b, c] * 256 ^ (unat l - 3))"
proof (cases "3 < unat l")
  case True
  then have "uncompact [l, a, b, c] = bytes_to_long ([a, b, c] @ replicate (unat l - 3) 0)"
    by (simp add: uncompact_def numeral_3_eq_3)
  also have "\<dots> = Inr (big_endian ([a, b, c] @ replicate (unat l - 3) 0))"
    by (simp add: bytes_to_long_eq)
  finally show ?thesis
    by (simp only: big_endian_append big_endian_replicate0 length_replicate add_0_right)
next
  case False
  then have "unat l - 3 = 0" by simp
  with False show ?thesis by (simp add: uncompact_def bytes_to_long_eq)
qed

subsection \<open>uncompact on four bytes, and the two conversions\<close>


lemma uncompact_spec_ge_3:
  assumes "length b = 4" and "3 \<le> unat (hd b)"
  shows "uncompact b = Inr (uncompact_spec b)"
proof -
  from assms(1) obtain l x y z where b: "b = [l, x, y, z]"
    by (auto simp: length_Suc_conv numeral_eq_Suc)
  from assms(2) have l: "3 \<le> unat l" by (simp add: b)
  have "take (unat l) ([x, y, z] @ replicate (unat l - 3) 0) = [x, y, z] @ replicate (unat l - 3) 0"
    using l by simp
  then have "uncompact_spec b = big_endian ([x, y, z] @ replicate (unat l - 3) 0)"
    by (simp add: uncompact_spec_def b numeral_3_eq_3)
  also have "\<dots> = big_endian [x, y, z] * 256 ^ (unat l - 3)"
    by (simp only: big_endian_append big_endian_replicate0 length_replicate add_0_right)
  finally show ?thesis unfolding b uncompact_4 by simp
qed

lemma MAX_TARGET_nonzero: "MAX_TARGET \<noteq> 0"
  by (simp add: MAX_TARGET_eq)

lemma bits_to_difficulty_zero:
  assumes "uncompact b = Inr 0"
  shows "bits_to_difficulty b ctx =
           Some (Inl DivisionByZero, snd (enough_decimal_precision_enter default_digits ctx))"
  using assms MAX_TARGET_nonzero
  by (simp add: bits_to_difficulty_def with_enough_decimal_precision_def decimal_divide_def
      split: prod.split)

lemma enter_28: "enough_decimal_precision_enter default_digits \<lparr>prec = 28\<rparr> = (\<lparr>prec = 28\<rparr>, \<lparr>prec = 78\<rparr>)"
  by (simp add: enough_decimal_precision_enter_def default_digits_eq)

lemma uncompact_3000: "uncompact [3, 0, 0, 0] = Inr 0"
  by (simp add: uncompact_4 big_endian_def)

lemma difficulty_to_bits_zero:
  "difficulty_to_bits 0 ctx =
           Some (Inl DivisionByZero, snd (enough_decimal_precision_enter default_digits ctx))"
  using MAX_TARGET_nonzero
  by (simp add: difficulty_to_bits_def with_enough_decimal_precision_def decimal_divide_def
      split: prod.split)

lemma bits_to_difficulty_success_restores:
  assumes "bits_to_difficulty b ctx = Some (Inr d, ctx')"
  shows "ctx' = ctx"
  using assms
  by (auto simp: bits_to_difficulty_def with_enough_decimal_precision_def
      enough_decimal_precision_enter_def enough_decimal_precision_exit_def Let_def
      split: prod.splits sum.splits if_splits)

lemma difficulty_to_bits_success_restores:
  assumes "difficulty_to_bits d ctx = Some (Inr r, ctx')"
  shows "ctx' = ctx"
  using assms
  by (auto simp: difficulty_to_bits_def with_enough_decimal_precision_def
      enough_decimal_precision_enter_def enough_decimal_precision_exit_def Let_def
      split: prod.splits sum.splits if_splits option.splits)

lemma compact_loop_negative:
  assumes "n < 0"
  shows "compact_loop (of_int n) acc = None"
proof (rule ccontr)
  assume "compact_loop (of_int n) acc \<noteq> None"
  then obtain y where y: "compact_loop (of_int n) acc = Some y" by auto
  have "\<forall>m. rat_of_int n = rat_of_int m \<longrightarrow> 0 \<le> m"
  proof (rule compact_loop.raw_induct
      [where P = "\<lambda>x a r. \<forall>m. x = rat_of_int m \<longrightarrow> 0 \<le> m", OF _ y])
    fix loop :: "rat \<Rightarrow> int list \<Rightarrow> int list option"
    fix number :: rat and base256 res :: "int list"
    assume IH: "\<And>x a r. loop x a = Some r \<Longrightarrow> \<forall>m. x = rat_of_int m \<longrightarrow> 0 \<le> m"
    assume body: "(if number \<noteq> 0
        then loop (of_int (long number div 256)) (long number mod 256 # base256)
        else Some base256) = Some res"
    show "\<forall>m. number = rat_of_int m \<longrightarrow> 0 \<le> m"
    proof (intro allI impI)
      fix m assume m: "number = rat_of_int m"
      show "0 \<le> m"
      proof (rule ccontr)
        assume "\<not> 0 \<le> m"
        then have neg: "m < 0" by simp
        then have "number \<noteq> 0" using m by simp
        with body have "loop (of_int (long number div 256)) (long number mod 256 # base256) = Some res"
          by simp
        from IH[OF this] have "0 \<le> long number div 256" by blast
        moreover have "long number = m" using m neg by (simp add: long_def)
        ultimately show False using neg by (simp add: pos_imp_zdiv_nonneg_iff)
      qed
    qed
  qed
  with assms show False by fastforce
qed

subsection \<open>Decimal rounding\<close>

lemma adjusted_bounds:
  assumes "0 < x"
  shows "10 powi adjusted x \<le> x" and "x < 10 powi (adjusted x + 1)"
proof -
  obtain a b where q: "quotient_of x = (a, b)" by (cases "quotient_of x")
  have b: "0 < b" using quotient_of_denom_pos[OF q] .
  have x: "x = of_int a / of_int b" using quotient_of_div[OF q] .
  have a: "0 < a" using assms b x by (simp add: zero_less_divide_iff)
  define da where "da = floorlog 10 (nat a)"
  define db where "db = floorlog 10 (nat b)"
  have A: "10 ^ (da - 1) \<le> nat a \<and> nat a < 10 ^ da"
    unfolding da_def using floorlog_bounds[of "nat a" 10] a by simp
  have B: "10 ^ (db - 1) \<le> nat b \<and> nat b < 10 ^ db"
    unfolding db_def using floorlog_bounds[of "nat b" 10] b by simp
  have da: "1 \<le> da" using a by (simp add: da_def floorlog_def)
  have db: "1 \<le> db" using b by (simp add: db_def floorlog_def)
  have ra: "rat_of_int a = of_nat (nat a)" using a by simp
  have rb: "rat_of_int b = of_nat (nat b)" using b by simp
  have a_lo: "(10::rat) ^ (da - 1) \<le> of_int a"
    unfolding ra using A by (metis of_nat_le_iff of_nat_numeral of_nat_power)
  have a_hi: "of_int a < (10::rat) ^ da"
    unfolding ra using A by (metis of_nat_less_iff of_nat_numeral of_nat_power)
  have b_lo: "(10::rat) ^ (db - 1) \<le> of_int b"
    unfolding rb using B by (metis of_nat_le_iff of_nat_numeral of_nat_power)
  have b_hi: "of_int b < (10::rat) ^ db"
    unfolding rb using B by (metis of_nat_less_iff of_nat_numeral of_nat_power)
  define k where "k = int da - int db"
  have bpos: "0 < rat_of_int b" using b by simp
  have apos: "0 < rat_of_int a" using a by simp
  have "x < 10 ^ da / 10 ^ (db - 1)"
    unfolding x using a_hi b_lo bpos apos
    by (intro frac_less) simp_all
  also have "\<dots> = 10 powi (int da - int (db - 1))"
    by (simp add: power_int_diff)
  also have "int da - int (db - 1) = k + 1"
    using db by (simp add: k_def)
  finally have up: "x < 10 powi (k + 1)" .
  have "(10::rat) powi (k - 1) = 10 ^ (da - 1) / 10 ^ db"
  proof -
    have "k - 1 = int (da - 1) - int db" using da by (simp add: k_def)
    then show ?thesis by (simp add: power_int_diff)
  qed
  also have "\<dots> < x"
    unfolding x using a_lo b_hi bpos apos
    by (intro frac_less2) simp_all
  finally have lo: "10 powi (k - 1) < x" .
  have adj: "adjusted x = (if 10 powi k \<le> x then k else k - 1)"
    by (simp add: adjusted_def q da_def db_def k_def Let_def)
  show "10 powi adjusted x \<le> x"
    using lo by (simp add: adj)
  show "x < 10 powi (adjusted x + 1)"
    using up by (simp add: adj)
qed

lemma adjusted_unique:
  assumes "10 powi e \<le> x" and "x < 10 powi (e + 1)"
  shows "adjusted x = e"
proof -
  have pos: "0 < x" using assms(1) by (rule less_le_trans[rotated]) simp
  note b = adjusted_bounds[OF pos]
  have "(10::rat) powi e < 10 powi (adjusted x + 1)" using assms(1) b(2) by simp
  then have 1: "e < adjusted x + 1"
    by (meson linorder_not_less power_int_increasing one_le_numeral)
  have "(10::rat) powi adjusted x < 10 powi (e + 1)" using assms(2) b(1) by simp
  then have 2: "adjusted x < e + 1"
    by (meson linorder_not_less power_int_increasing one_le_numeral)
  from 1 2 show ?thesis by simp
qed

lemma adjusted_mono:
  assumes "0 < x" and "x \<le> y"
  shows "adjusted x \<le> adjusted y"
proof -
  have y: "0 < y" using assms by simp
  have "(10::rat) powi adjusted x < 10 powi (adjusted y + 1)"
    using adjusted_bounds(1)[OF assms(1)] adjusted_bounds(2)[OF y] assms(2) by simp
  then have "adjusted x < adjusted y + 1"
    by (meson linorder_not_less power_int_increasing one_le_numeral)
  then show ?thesis by simp
qed

lemma round_half_even_of_int: "round_half_even (of_int n) = n"
  by (simp add: round_half_even_def)

lemma round_half_even_range:
  "\<lfloor>x\<rfloor> \<le> round_half_even x \<and> round_half_even x \<le> \<lfloor>x\<rfloor> + 1"
  by (simp add: round_half_even_def Let_def)

lemma round_half_even_mono:
  assumes "x \<le> y"
  shows "round_half_even x \<le> round_half_even y"
proof (cases "\<lfloor>x\<rfloor> = \<lfloor>y\<rfloor>")
  case True
  with assms have "x - of_int \<lfloor>x\<rfloor> \<le> y - of_int \<lfloor>y\<rfloor>" by simp
  with True show ?thesis
    by (auto simp: round_half_even_def Let_def)
next
  case False
  with assms have "\<lfloor>x\<rfloor> + 1 \<le> \<lfloor>y\<rfloor>"
    using floor_mono[OF assms] by linarith
  with round_half_even_range[of x] round_half_even_range[of y] show ?thesis by linarith
qed

lemma rescale_mono: "x \<le> y \<Longrightarrow> rescale q x \<le> rescale q y"
  unfolding rescale_def
  by (intro mult_right_mono round_half_even_mono divide_right_mono iffD2[OF of_int_le_iff]) simp_all

lemma rescale_power:
  assumes "q \<le> e"
  shows "rescale q (10 powi e) = 10 powi e"
proof -
  have "(10::rat) powi e / 10 powi q = 10 powi (e - q)"
    by (simp add: power_int_diff)
  also have "\<dots> = of_int (10 ^ nat (e - q))"
    using assms by (simp add: power_int_def)
  finally have "round_half_even (10 powi e / 10 powi q) = 10 ^ nat (e - q)"
    by (simp only: round_half_even_of_int)
  then have "rescale q (10 powi e) = of_int (10 ^ nat (e - q)) * 10 powi q"
    by (simp add: rescale_def)
  also have "\<dots> = 10 powi (e - q) * 10 powi q"
    using assms by (simp add: power_int_def)
  also have "\<dots> = 10 powi e"
    by (simp flip: power_int_add)
  finally show ?thesis .
qed

lemma decimal_fix_pos:
  assumes "0 < x"
  shows "decimal_fix p x = rescale (adjusted x - int p + 1) x"
  using assms by (simp add: decimal_fix_def)

lemma decimal_fix_mono_pos:
  assumes p: "1 \<le> p" and x: "0 < x" and xy: "x \<le> y"
  shows "decimal_fix p x \<le> decimal_fix p y"
proof -
  have y: "0 < y" using x xy by simp
  define ex where "ex = adjusted x"
  define ey where "ey = adjusted y"
  have le: "ex \<le> ey" unfolding ex_def ey_def by (rule adjusted_mono[OF x xy])
  show ?thesis
  proof (cases "ex = ey")
    case True
    then show ?thesis
      unfolding decimal_fix_pos[OF x] decimal_fix_pos[OF y] ex_def ey_def
      by (simp add: rescale_mono xy)
  next
    case False
    with le have lt: "ex + 1 \<le> ey" by simp
    have "decimal_fix p x = rescale (ex - int p + 1) x"
      unfolding decimal_fix_pos[OF x] ex_def ..
    also have "\<dots> \<le> rescale (ex - int p + 1) (10 powi (ex + 1))"
      by (rule rescale_mono) (simp add: ex_def less_imp_le adjusted_bounds(2)[OF x])
    also have "\<dots> = 10 powi (ex + 1)"
      by (rule rescale_power) simp
    also have "\<dots> \<le> 10 powi ey"
      by (rule power_int_increasing[OF lt]) simp
    also have "\<dots> = rescale (ey - int p + 1) (10 powi ey)"
      by (rule rescale_power[symmetric]) (use p in simp)
    also have "\<dots> \<le> rescale (ey - int p + 1) y"
      by (rule rescale_mono) (simp add: ey_def adjusted_bounds(1)[OF y])
    also have "\<dots> = decimal_fix p y"
      unfolding decimal_fix_pos[OF y] ey_def ..
    finally show ?thesis .
  qed
qed

lemma decimal_fix_minus: "decimal_fix p (- x) = - decimal_fix p x"
  by (simp add: decimal_fix_def)

lemma decimal_fix_int_pos:
  assumes "0 < n" and "n < 10 ^ p"
  shows "decimal_fix p (of_int n) = of_int n"
proof -
  define e where "e = adjusted (of_int n)"
  have pos: "0 < rat_of_int n" using assms by simp
  have "(10::rat) powi e \<le> of_int n" unfolding e_def by (rule adjusted_bounds(1)[OF pos])
  also have "\<dots> < 10 powi (int p)" using assms(2)
    by (metis of_int_less_iff of_int_numeral of_int_power power_int_of_nat)
  finally have "e < int p"
    by (meson linorder_not_less power_int_increasing one_le_numeral)
  define m where "m = nat (int p - 1 - e)"
  have q: "e - int p + 1 = - int m" using \<open>e < int p\<close> by (simp add: m_def)
  have "rat_of_int n / 10 powi (- int m) = of_int (n * 10 ^ m)"
    by (simp add: power_int_minus divide_inverse)
  then have "rescale (- int m) (of_int n) = of_int (n * 10 ^ m) * 10 powi (- int m)"
    by (simp only: rescale_def round_half_even_of_int)
  also have "\<dots> = of_int n"
    by (simp add: power_int_minus)
  finally show ?thesis
    unfolding decimal_fix_pos[OF pos] e_def[symmetric] q .
qed

lemma decimal_fix_int:
  assumes "\<bar>n\<bar> < 10 ^ p"
  shows "decimal_fix p (of_int n) = of_int n"
proof -
  consider "n = 0" | "0 < n" | "n < 0" by linarith
  then show ?thesis
  proof cases
    case 1 then show ?thesis by (simp add: decimal_fix_def)
  next
    case 2 with assms show ?thesis by (simp add: decimal_fix_int_pos)
  next
    case 3
    with assms have "decimal_fix p (of_int (- n)) = of_int (- n)"
      by (intro decimal_fix_int_pos) simp_all
    then show ?thesis using decimal_fix_minus[of p "of_int n"] by simp
  qed
qed

text \<open>The rounding on small numbers: three digits of 12345 and of 2/3, two of the tie 0.0125.\<close>

lemma round_half_even_examples:
  "round_half_even (2469 / 20) = 123"
  "round_half_even (2000 / 3) = 667"
  "round_half_even (25 / 2) = 12"
  "round_half_even (27 / 2) = 14"
proof -
  have f: "\<lfloor>2469 / 20 :: rat\<rfloor> = 123" "\<lfloor>2000 / 3 :: rat\<rfloor> = 666"
    "\<lfloor>25 / 2 :: rat\<rfloor> = 12" "\<lfloor>27 / 2 :: rat\<rfloor> = 13"
    by (simp_all add: floor_eq_iff)
  show "round_half_even (2469 / 20) = 123" "round_half_even (2000 / 3) = 667"
    "round_half_even (25 / 2) = 12" "round_half_even (27 / 2) = 14"
    unfolding round_half_even_def Let_def f by simp_all
qed

lemma decimal_fix_examples:
  "decimal_fix 3 12345 = 12300"
  "decimal_fix 3 (2 / 3) = 667 / 1000"
  "decimal_fix 2 (1 / 80) = 12 / 1000"
proof -
  have a: "adjusted 12345 = 4" "adjusted (2 / 3) = - 1" "adjusted (1 / 80) = - 2"
    by (rule adjusted_unique; simp)+
  have s: "(12345::rat) / 10 powi 2 = 2469 / 20" "(2 / 3 :: rat) / 10 powi (- 3) = 2000 / 3"
    "(1 / 80 :: rat) / 10 powi (- 3) = 25 / 2"
    by (simp_all add: power_int_minus)
  have "rescale 2 12345 = 12300"
    unfolding rescale_def s(1) round_half_even_examples by simp
  then show "decimal_fix 3 12345 = 12300"
    by (simp add: decimal_fix_def a)
  show "decimal_fix 3 (2 / 3) = 667 / 1000"
    by (simp add: decimal_fix_def a rescale_def s round_half_even_examples power_int_minus)
  show "decimal_fix 2 (1 / 80) = 12 / 1000"
    by (simp add: decimal_fix_def a rescale_def s round_half_even_examples power_int_minus)
qed

subsection \<open>The digits compact produces\<close>

lemma long_of_int: "long (of_int n) = n"
  by (simp add: long_def)

lemma compact_loop_nonneg:
  "0 \<le> n \<Longrightarrow> compact_loop (of_int n) acc = Some (base256_of n @ acc)"
proof (induction n arbitrary: acc rule: base256_of.induct)
  case (1 n)
  show ?case
  proof (cases "0 < n")
    case True
    then have "compact_loop (of_int n) acc
        = compact_loop (of_int (n div 256)) (n mod 256 # acc)"
      by (subst compact_loop.simps) (simp add: long_of_int)
    also have "\<dots> = Some (base256_of (n div 256) @ (n mod 256 # acc))"
      using True by (intro "1.IH") simp_all
    also have "\<dots> = Some (base256_of n @ acc)"
      using True by (subst (2) base256_of.simps) simp
    finally show ?thesis .
  next
    case False
    with "1.prems" have "n = 0" by simp
    then show ?thesis
      by (subst compact_loop.simps, subst base256_of.simps) simp
  qed
qed

lemma val256_snoc: "val256 (ds @ [d]) = 256 * val256 ds + d"
  by (simp add: val256_def)

lemma val256_append: "val256 (xs @ ys) = val256 xs * 256 ^ length ys + val256 ys"
proof (induction ys rule: rev_induct)
  case Nil then show ?case by (simp add: val256_def)
next
  case (snoc y ys)
  have "val256 (xs @ ys @ [y]) = 256 * val256 (xs @ ys) + y"
    using val256_snoc[of "xs @ ys" y] by simp
  then show ?case by (simp add: snoc.IH val256_snoc algebra_simps)
qed

lemma val256_range:
  "list_all (\<lambda>d. 0 \<le> d \<and> d < 256) ds \<Longrightarrow> 0 \<le> val256 ds \<and> val256 ds < 256 ^ length ds"
proof (induction ds rule: rev_induct)
  case Nil then show ?case by (simp add: val256_def)
next
  case (snoc d ds)
  then have "0 \<le> val256 ds" "val256 ds + 1 \<le> 256 ^ length ds" "0 \<le> d" "d < 256" by simp_all
  then have "256 * (val256 ds + 1) \<le> 256 * 256 ^ length ds" by simp
  with \<open>0 \<le> val256 ds\<close> \<open>0 \<le> d\<close> \<open>d < 256\<close> show ?case by (simp add: val256_snoc)
qed

lemma base256_of_range: "list_all (\<lambda>d. 0 \<le> d \<and> d < 256) (base256_of n)"
proof (induction n rule: base256_of.induct)
  case (1 n)
  show ?case
    by (subst base256_of.simps) (use 1 in simp)
qed

lemma val256_base256_of: "0 \<le> n \<Longrightarrow> val256 (base256_of n) = n"
proof (induction n rule: base256_of.induct)
  case (1 n)
  show ?case
  proof (cases "0 < n")
    case True
    then have "val256 (base256_of (n div 256)) = n div 256" by (intro 1) simp_all
    then show ?thesis using True
      by (subst base256_of.simps) (simp add: val256_snoc)
  next
    case False
    with "1.prems" show ?thesis by (subst base256_of.simps) (simp add: val256_def)
  qed
qed

lemma base256_of_lower:
  "0 < n \<Longrightarrow> 256 ^ (length (base256_of n) - 1) \<le> n"
proof (induction n rule: base256_of.induct)
  case (1 n)
  show ?case
  proof (cases "0 < n div 256")
    case True
    have len: "length (base256_of n) = Suc (length (base256_of (n div 256)))"
      using "1.prems" by (subst base256_of.simps) simp
    have pos: "0 < length (base256_of (n div 256))"
      using True by (subst base256_of.simps) simp
    have "256 ^ (length (base256_of (n div 256)) - 1) \<le> n div 256"
      using "1.prems" True by (intro "1.IH")
    then have "256 * 256 ^ (length (base256_of (n div 256)) - 1) \<le> 256 * (n div 256)" by simp
    also have "\<dots> \<le> n" by (simp add: "1.prems" less_imp_le)
    finally show ?thesis using pos unfolding len
      by (simp flip: power_Suc)
  next
    case False
    then have "base256_of (n div 256) = []" by (subst base256_of.simps) simp
    then have "length (base256_of n) = 1"
      using "1.prems" by (subst base256_of.simps) simp
    then show ?thesis using "1.prems" by simp
  qed
qed

lemma base256_of_nonempty: "0 < n \<Longrightarrow> base256_of n \<noteq> []"
  by (subst base256_of.simps) simp

lemma val256_Cons: "val256 (d # ds) = d * 256 ^ length ds + val256 ds"
  using val256_append[of "[d]" ds] by (simp add: val256_def)

lemma sign_padded_range:
  "list_all (\<lambda>d. 0 \<le> d \<and> d < 256) ds \<Longrightarrow> list_all (\<lambda>d. 0 \<le> d \<and> d < 256) (sign_padded ds)"
  by (simp add: sign_padded_def)

lemma val256_sign_padded: "val256 (sign_padded ds) = val256 ds"
  by (simp add: sign_padded_def val256_Cons)

lemma compact_length_bounds:
  assumes "0 < n"
  shows "n < 128 * 256 ^ (compact_length n - 1)"
    and "2 \<le> compact_length n \<Longrightarrow> 128 * 256 ^ (compact_length n - 2) \<le> n"
proof -
  obtain d rest where ds: "base256_of n = d # rest"
    using base256_of_nonempty[OF assms] by (cases "base256_of n") auto
  have range: "list_all (\<lambda>d. 0 \<le> d \<and> d < 256) (d # rest)"
    using base256_of_range[of n] by (simp add: ds)
  then have d: "0 \<le> d" "d < 256" and rest: "0 \<le> val256 rest" "val256 rest < 256 ^ length rest"
    using val256_range[of rest] by simp_all
  have n: "n = d * 256 ^ length rest + val256 rest"
    using val256_base256_of[of n] assms by (simp add: ds val256_Cons)
  have lower: "256 ^ length rest \<le> n"
    using base256_of_lower[OF assms] by (simp add: ds)
  have both: "n < 128 * 256 ^ (compact_length n - 1)
      \<and> (2 \<le> compact_length n \<longrightarrow> 128 * 256 ^ (compact_length n - 2) \<le> n)"
  proof (cases "d > 127")
    case True
    then have L: "compact_length n = length rest + 2"
      by (simp add: compact_length_def sign_padded_def ds)
    from True have "128 * 256 ^ length rest \<le> d * 256 ^ length rest"
      by (intro mult_right_mono) simp_all
    with rest have lo: "128 * 256 ^ length rest \<le> n" unfolding n by linarith
    have "d * 256 ^ length rest \<le> 255 * 256 ^ length rest"
      using d by (intro mult_right_mono) simp_all
    with rest have "n < 256 * 256 ^ length rest" unfolding n by linarith
    moreover have "(256::int) * 256 ^ length rest \<le> 128 * 256 ^ (length rest + 1)" by simp
    ultimately have "n < 128 * 256 ^ (length rest + 1)" by (rule less_le_trans)
    with lo show ?thesis by (simp add: L)
  next
    case False
    then have L: "compact_length n = length rest + 1"
      by (simp add: compact_length_def sign_padded_def ds)
    from False have "d * 256 ^ length rest \<le> 127 * 256 ^ length rest"
      by (intro mult_right_mono) simp_all
    with rest have hi: "n < 128 * 256 ^ length rest" unfolding n by linarith
    have "128 * 256 ^ (length rest - 1) \<le> n" if "1 \<le> length rest"
    proof -
      from that obtain m where m: "length rest = Suc m" by (cases "length rest") auto
      have "(128::int) * 256 ^ m \<le> 256 * 256 ^ m" by simp
      also have "\<dots> \<le> n" using lower by (simp add: m)
      finally show ?thesis by (simp add: m)
    qed
    with hi show ?thesis by (simp add: L)
  qed
  from both show "n < 128 * 256 ^ (compact_length n - 1)" by blast
  from both show "2 \<le> compact_length n \<Longrightarrow> 128 * 256 ^ (compact_length n - 2) \<le> n" by blast
qed

lemma compact_length_ge_3:
  assumes "32768 \<le> n"
  shows "3 \<le> compact_length n"
proof (rule ccontr)
  assume "\<not> 3 \<le> compact_length n"
  then have "compact_length n - 1 \<le> 1" by simp
  then have "(256::int) ^ (compact_length n - 1) \<le> 256 ^ 1"
    by (intro power_increasing) simp_all
  moreover have "n < 128 * 256 ^ (compact_length n - 1)"
    using assms by (intro compact_length_bounds(1)) simp
  ultimately show False using assms by simp
qed

lemma compact_length_le_255:
  assumes "0 < n" and "n < 128 * 256 ^ 254"
  shows "compact_length n \<le> 255"
proof (rule ccontr)
  assume "\<not> compact_length n \<le> 255"
  then have big: "256 \<le> compact_length n" by simp
  then have "128 * 256 ^ (compact_length n - 2) \<le> n"
    by (intro compact_length_bounds(2)[OF assms(1)]) simp
  moreover have "(256::int) ^ 254 \<le> 256 ^ (compact_length n - 2)"
    using big by (intro power_increasing) simp_all
  ultimately show False using assms(2) by linarith
qed

lemma big_endian_map_of_int:
  "list_all (\<lambda>d. 0 \<le> d \<and> d < 256) ds \<Longrightarrow> big_endian (map of_int ds) = val256 ds"
proof (induction ds rule: rev_induct)
  case Nil then show ?case by (simp add: big_endian_def val256_def)
next
  case (snoc d ds)
  then have d: "0 \<le> d" "d < 256" and IH: "big_endian (map of_int ds) = val256 ds" by simp_all
  have "uint (word_of_int d :: byte) = d"
    using d by (simp add: uint_word_of_int take_bit_eq_mod)
  then show ?case by (simp add: big_endian_snoc val256_snoc IH)
qed

lemma compact_eq:
  assumes lo: "32768 \<le> n" and hi: "n < 128 * 256 ^ 254"
  shows "compact (of_int n)
    = Some (Inr (of_nat (compact_length n) # map of_int (take 3 (sign_padded (base256_of n)))))"
proof -
  have pos: "0 < n" using lo by simp
  obtain d rest where ds: "base256_of n = d # rest"
    using base256_of_nonempty[OF pos] by (cases "base256_of n") auto
  define ds' where "ds' = sign_padded (base256_of n)"
  have L: "length ds' = compact_length n" by (simp add: ds'_def compact_length_def)
  have L3: "3 \<le> length ds'" unfolding L by (rule compact_length_ge_3[OF lo])
  have L255: "length ds' \<le> 255" unfolding L by (rule compact_length_le_255[OF pos hi])
  have range: "list_all (\<lambda>d. 0 \<le> d \<and> d < 256) ds'"
    unfolding ds'_def by (intro sign_padded_range base256_of_range)
  then have range3: "list_all (\<lambda>d. 0 \<le> d \<and> d < 256) (take 3 ds')"
    by (simp add: list_all_iff) (meson in_set_takeD)
  have "compact_tail (base256_of n) = bytearray (int (length ds') # take 3 (ds' @ replicate (3 - length ds') 0))"
    by (simp add: compact_tail_def ds ds'_def sign_padded_def Let_def)
  also have "\<dots> = bytearray (int (length ds') # take 3 ds')"
    using L3 by simp
  also have "\<dots> = Inr (map of_int (int (length ds') # take 3 ds'))"
    using L255 range3 by (simp add: bytearray_def)
  finally have "compact_tail (base256_of n) = Inr (of_nat (length ds') # map of_int (take 3 ds'))"
    by simp
  moreover have "compact_loop (of_int n) [] = Some (base256_of n)"
    using compact_loop_nonneg[of n "[]"] pos by simp
  ultimately show ?thesis
    by (simp add: compact_def compact_length_def ds'_def)
qed

subsection \<open>Difficulty of an encoded target\<close>

lemma enter_prec:
  "prec (snd (enough_decimal_precision_enter default_digits ctx)) = max (prec ctx) 78"
  by (simp add: enough_decimal_precision_enter_def default_digits_eq)

lemma enter_fst: "fst (enough_decimal_precision_enter digits ctx) = ctx"
  by (simp add: enough_decimal_precision_enter_def)

lemma bits_to_difficulty_nonzero:
  assumes "uncompact b = Inr v" and "v \<noteq> 0"
  shows "bits_to_difficulty b ctx
    = Some (Inr (decimal_fix (max (prec ctx) 78) (of_int MAX_TARGET / of_int v)), ctx)"
proof -
  obtain orig ctx1 where e: "enough_decimal_precision_enter default_digits ctx = (orig, ctx1)"
    by (cases "enough_decimal_precision_enter default_digits ctx")
  have orig: "orig = ctx" using enter_fst[of default_digits ctx] by (simp add: e)
  have p: "prec ctx1 = max (prec ctx) 78" using enter_prec[of ctx] by (simp add: e)
  show ?thesis
    using assms
    by (simp add: bits_to_difficulty_def with_enough_decimal_precision_def e decimal_divide_def
        enough_decimal_precision_exit_def orig p)
qed

lemma MAX_TARGET_pos: "0 < MAX_TARGET"
  by (simp add: MAX_TARGET_eq)

lemma enter_snd:
  "snd (enough_decimal_precision_enter default_digits ctx) = ctx\<lparr>prec := max (prec ctx) 78\<rparr>"
  by (simp add: enough_decimal_precision_enter_def default_digits_eq max_def)

subsection \<open>The round trip through a bytearray\<close>

lemma compact_length_eq_3:
  assumes "32768 \<le> n" and "n < 8388608"
  shows "compact_length n = 3"
proof (rule antisym)
  show "3 \<le> compact_length n" by (rule compact_length_ge_3[OF assms(1)])
  show "compact_length n \<le> 3"
  proof (rule ccontr)
    assume "\<not> compact_length n \<le> 3"
    then have big: "4 \<le> compact_length n" by simp
    then have "128 * 256 ^ (compact_length n - 2) \<le> n"
      using assms(1) by (intro compact_length_bounds(2)) simp_all
    moreover have "(256::int) ^ 2 \<le> 256 ^ (compact_length n - 2)"
      using big by (intro power_increasing) simp_all
    ultimately show False using assms(2) by simp
  qed
qed

lemma compact_length_ge_4:
  assumes "8388608 \<le> n"
  shows "4 \<le> compact_length n"
proof (rule ccontr)
  assume "\<not> 4 \<le> compact_length n"
  then have "compact_length n - 1 \<le> 2" by simp
  then have "(256::int) ^ (compact_length n - 1) \<le> 256 ^ 2"
    by (intro power_increasing) simp_all
  moreover have "n < 128 * 256 ^ (compact_length n - 1)"
    using assms by (intro compact_length_bounds(1)) simp
  ultimately show False using assms by simp
qed

lemma uncompact_bytearray_Cons3:
  assumes "length m = 3"
  shows "uncompact_bytearray (l # m) = (if 3 < unat l then Inl TypeError else Inr (big_endian m))"
proof -
  have "m \<noteq> []" using assms by auto
  then show ?thesis by (simp add: uncompact_bytearray_def assms bytes_to_long_eq)
qed

lemma compact_then_uncompact:
  assumes lo: "32768 \<le> n" and hi: "n < 128 * 256 ^ 254"
  shows "\<exists>b. compact (of_int n) = Some (Inr b)
           \<and> uncompact_bytearray b = (if 8388608 \<le> n then Inl TypeError else Inr n)"
proof -
  have pos: "0 < n" using lo by simp
  define ds' where "ds' = sign_padded (base256_of n)"
  have L: "length ds' = compact_length n" by (simp add: ds'_def compact_length_def)
  have L3: "3 \<le> length ds'" unfolding L by (rule compact_length_ge_3[OF lo])
  have L255: "length ds' \<le> 255" unfolding L by (rule compact_length_le_255[OF pos hi])
  have range: "list_all (\<lambda>d. 0 \<le> d \<and> d < 256) ds'"
    unfolding ds'_def by (intro sign_padded_range base256_of_range)
  then have range3: "list_all (\<lambda>d. 0 \<le> d \<and> d < 256) (take 3 ds')"
    by (simp add: list_all_iff) (meson in_set_takeD)
  have val: "val256 ds' = n"
    unfolding ds'_def val256_sign_padded using pos by (intro val256_base256_of) simp
  have len3: "length (map word_of_int (take 3 ds') :: byte list) = 3" using L3 by simp
  have un: "unat (of_nat (length ds') :: byte) = length ds'"
    using L255 by (simp add: unat_of_nat)
  define b :: "byte list" where "b = of_nat (length ds') # map of_int (take 3 ds')"
  have c: "compact (of_int n) = Some (Inr b)"
    using compact_eq[OF lo hi] by (simp add: b_def ds'_def compact_length_def)
  have u: "uncompact_bytearray b
      = (if 3 < length ds' then Inl TypeError else Inr (big_endian (map of_int (take 3 ds'))))"
    unfolding b_def by (simp only: uncompact_bytearray_Cons3[OF len3] un)
  show ?thesis
  proof (cases "8388608 \<le> n")
    case True
    then have "3 < length ds'" unfolding L using compact_length_ge_4[of n] by simp
    with u c True show ?thesis by simp
  next
    case False
    then have l3: "length ds' = 3" unfolding L using compact_length_eq_3[OF lo] by simp
    have "big_endian (map of_int (take 3 ds')) = val256 (take 3 ds')"
      by (rule big_endian_map_of_int[OF range3])
    also have "\<dots> = n" using val by (simp add: l3)
    finally show ?thesis using u c False l3 by simp
  qed
qed

lemma round_trip_exact:
  assumes "32768 \<le> n" and "n < 8388608"
  shows "round_trip n = Some (Inr n)"
proof -
  have "n < 128 * 256 ^ 254" using assms(2) by simp
  from compact_then_uncompact[OF assms(1) this] assms(2) show ?thesis
    by (auto simp: round_trip_def)
qed

lemma round_trip_raises:
  assumes "8388608 \<le> n" and "n < 128 * 256 ^ 254"
  shows "round_trip n = Some (Inl TypeError)"
proof -
  have "32768 \<le> n" using assms(1) by simp
  from compact_then_uncompact[OF this assms(2)] assms(1) show ?thesis
    by (auto simp: round_trip_def)
qed

lemma bits_to_difficulty_bytearray_nonzero:
  assumes "uncompact_bytearray b = Inr v" and "v \<noteq> 0"
  shows "bits_to_difficulty_bytearray b ctx
    = Some (Inr (decimal_fix (max (prec ctx) 78) (of_int MAX_TARGET / of_int v)), ctx)"
proof -
  obtain orig ctx1 where e: "enough_decimal_precision_enter default_digits ctx = (orig, ctx1)"
    by (cases "enough_decimal_precision_enter default_digits ctx")
  have orig: "orig = ctx" using enter_fst[of default_digits ctx] by (simp add: e)
  have p: "prec ctx1 = max (prec ctx) 78" using enter_prec[of ctx] by (simp add: e)
  show ?thesis
    using assms
    by (simp add: bits_to_difficulty_bytearray_def with_enough_decimal_precision_def e
        decimal_divide_def enough_decimal_precision_exit_def orig p)
qed




subsection \<open>Rounding error and strict order\<close>

lemma round_half_even_error: "\<bar>of_int (round_half_even z) - z\<bar> \<le> 1 / 2"
proof -
  define r where "r = z - of_int \<lfloor>z\<rfloor>"
  have r: "0 \<le> r" "r < 1" unfolding r_def by linarith+
  have z: "z = of_int \<lfloor>z\<rfloor> + r" by (simp add: r_def)
  consider "r < 1 / 2" | "1 / 2 < r" | "r = 1 / 2" by linarith
  then show ?thesis
  proof cases
    case 1
    then have "round_half_even z = \<lfloor>z\<rfloor>" by (simp add: round_half_even_def r_def Let_def)
    with 1 r show ?thesis by (simp add: r_def)
  next
    case 2
    then have "round_half_even z = \<lfloor>z\<rfloor> + 1"
      by (simp add: round_half_even_def r_def Let_def)
    then have "of_int (round_half_even z) - z = 1 - r" by (simp add: r_def)
    with 2 r show ?thesis by simp
  next
    case 3
    then have "round_half_even z = \<lfloor>z\<rfloor> \<or> round_half_even z = \<lfloor>z\<rfloor> + 1"
      by (simp add: round_half_even_def r_def Let_def)
    then have "of_int (round_half_even z) - z = - r \<or> of_int (round_half_even z) - z = 1 - r"
      by (auto simp: r_def)
    with 3 show ?thesis by auto
  qed
qed

lemma rescale_error: "\<bar>rescale q x - x\<bar> \<le> 10 powi q / 2"
proof -
  define u :: rat where "u = 10 powi q"
  have u: "0 < u" by (simp add: u_def zero_less_power_int)
  have "rescale q x - x = (of_int (round_half_even (x / u)) - x / u) * u"
    using u by (simp add: rescale_def u_def algebra_simps)
  then have "\<bar>rescale q x - x\<bar> = \<bar>of_int (round_half_even (x / u)) - x / u\<bar> * u"
    using u by (simp add: abs_mult)
  also have "\<dots> \<le> (1 / 2) * u"
    using u by (intro mult_right_mono round_half_even_error) simp
  finally show ?thesis by (simp add: u_def)
qed

lemma decimal_fix_error:
  assumes "0 < x"
  shows "\<bar>decimal_fix p x - x\<bar> \<le> x * (10 powi (1 - int p) / 2)"
proof -
  have split: "adjusted x - int p + 1 = adjusted x + (1 - int p)" by simp
  have "(10::rat) powi (adjusted x - int p + 1) = 10 powi adjusted x * 10 powi (1 - int p)"
    unfolding split by (rule power_int_add) simp
  also have "\<dots> \<le> x * 10 powi (1 - int p)"
    by (intro mult_right_mono adjusted_bounds(1)[OF assms]) (simp add: zero_le_power_int)
  finally have "(10::rat) powi (adjusted x - int p + 1) / 2 \<le> x * 10 powi (1 - int p) / 2"
    by simp
  with rescale_error[of "adjusted x - int p + 1" x] show ?thesis
    unfolding decimal_fix_pos[OF assms] by simp
qed

lemma decimal_fix_strict:
  assumes p: "9 \<le> p" and x: "0 < x" and xy: "x * (1 + 1 / 2 ^ 23) \<le> y"
  shows "decimal_fix p x < decimal_fix p y"
proof -
  define e :: rat where "e = 10 powi (1 - int p) / 2"
  have y: "0 < y"
  proof -
    have "0 < x * (1 + 1 / 2 ^ 23)" using x by simp
    with xy show ?thesis by simp
  qed
  have "(10::rat) powi (1 - int p) \<le> 10 powi (- 8)"
    using p by (intro power_int_increasing) simp_all
  then have e: "e \<le> 1 / 200000000" "0 \<le> e"
    by (simp_all add: e_def power_int_minus zero_le_power_int)
  have ex: "\<bar>decimal_fix p x - x\<bar> \<le> x * e"
    using decimal_fix_error[OF x, of p] by (simp only: e_def)
  have ey: "\<bar>decimal_fix p y - y\<bar> \<le> y * e"
    using decimal_fix_error[OF y, of p] by (simp only: e_def)
  have "decimal_fix p x \<le> x + x * e"
    using ex by linarith
  also have "\<dots> \<le> x + x * (1 / 200000000)"
    using x e(1) by (intro add_left_mono mult_left_mono) simp_all
  also have "\<dots> < x * (1 + 1 / 2 ^ 23) * (1 - 1 / 200000000)"
  proof -
    have "(1 + 1 / 200000000 :: rat) < (1 + 1 / 2 ^ 23) * (1 - 1 / 200000000)" by simp
    then have "x * (1 + 1 / 200000000) < x * ((1 + 1 / 2 ^ 23) * (1 - 1 / 200000000))"
      using x by (rule mult_strict_left_mono)
    then show ?thesis by (simp add: algebra_simps)
  qed
  also have "\<dots> \<le> y * (1 - 1 / 200000000)"
    using xy by (intro mult_right_mono) simp_all
  also have "\<dots> \<le> y * (1 - e)"
    using y e(1) by (intro mult_left_mono) simp_all
  also have "\<dots> = y - y * e" by (simp add: algebra_simps)
  also have "\<dots> \<le> decimal_fix p y"
    using ey by linarith
  finally show ?thesis .
qed


lemma difficulty_small_targets_inverted:
  "\<exists>d1 d2. difficulty_of_target 127 ctx = Some (Inr d1)
           \<and> difficulty_of_target 128 ctx = Some (Inr d2) \<and> d1 < d2"
proof -
  define p where "p = max (prec ctx) 78"
  have p: "9 \<le> p" by (simp add: p_def)
  have c1: "compact (of_int 127) = Some (Inr [1, 127, 0, 0])" by code_simp
  have c2: "compact (of_int 128) = Some (Inr [2, 0, 128, 0])" by code_simp
  have u1: "uncompact_bytearray [1, 127, 0, 0] = Inr 8323072"
    by (simp add: uncompact_bytearray_def bytes_to_long_eq big_endian_def)
  have u2: "uncompact_bytearray [2, 0, 128, 0] = Inr 32768"
    by (simp add: uncompact_bytearray_def bytes_to_long_eq big_endian_def)
  have d1: "difficulty_of_target 127 ctx
      = Some (Inr (decimal_fix p (of_int MAX_TARGET / of_int 8323072)))"
    using bits_to_difficulty_bytearray_nonzero[OF u1, of ctx]
    by (simp add: difficulty_of_target_def c1 p_def del: of_int_numeral)
  have d2: "difficulty_of_target 128 ctx
      = Some (Inr (decimal_fix p (of_int MAX_TARGET / of_int 32768)))"
    using bits_to_difficulty_bytearray_nonzero[OF u2, of ctx]
    by (simp add: difficulty_of_target_def c2 p_def del: of_int_numeral)
  have M: "0 < rat_of_int MAX_TARGET" using MAX_TARGET_pos by simp
  have "rat_of_int MAX_TARGET / of_int 8323072 * (1 + 1 / 2 ^ 23)
      \<le> of_int MAX_TARGET / of_int 32768"
    using M by (simp add: field_simps)
  moreover have "0 < rat_of_int MAX_TARGET / of_int 8323072" using M by simp
  ultimately have "decimal_fix p (of_int MAX_TARGET / of_int 8323072)
      < decimal_fix p (of_int MAX_TARGET / of_int 32768)"
    using p by (intro decimal_fix_strict)
  with d1 d2 show ?thesis by simp
qed

subsection \<open>Packing 32-bit fields\<close>



lemma digest_ff: "bytes_to_long (rev (replicate 32 255)) = Inr (2 ^ 256 - 1)"
  by code_simp

section \<open>The claims\<close>

subsection \<open>calculate_hash\<close>




text \<open>
  C4. Whenever calculate_hash gets as far as a candidate and a target (the message is
  built, the reversed digest reads as the number \<open>candidate\<close> and the bits decode to
  \<open>target\<close>): if the candidate exceeds the target it fails with the ValueError "Hash does
  not meet required difficulty" and the header, its hash field included, is unchanged;
  and it raises that error exactly when the candidate exceeds the target, returning the
  reversed digest exactly when it does not.
\<close>

theorem calculate_hash_proof_of_work:
  fixes self :: "'tm BlockHeader"
  assumes "message mktime self = Inr m"
    and "bytes_to_long (rev (sha_impl (sha_impl m))) = Inr candidate"
    and "uncompact (bits self) = Inr target"
  shows "(target < candidate \<longrightarrow>
            calculate_hash sha_impl mktime self
              = (Inl (ValueError ''Hash does not meet required difficulty''), self))
       \<and> (fst (calculate_hash sha_impl mktime self)
              \<noteq> Inl (ValueError ''Hash does not meet required difficulty'')
            \<longleftrightarrow> candidate \<le> target)
       \<and> (candidate \<le> target \<longleftrightarrow>
            fst (calculate_hash sha_impl mktime self) = Inr (rev (sha_impl (sha_impl m))))"
  using assms by (simp add: calculate_hash_def Let_def)

theorem calculate_hash_proof_of_work_witness:
  "calculate_hash ff_digest id example_header
     = (Inl (ValueError ''Hash does not meet required difficulty''), example_header)"
proof -
  obtain m where m: "message id example_header = Inr m"
    by (simp add: message_def pack_L_def example_header_def)
  have d: "bytes_to_long (rev (ff_digest (ff_digest m))) = Inr (2 ^ 256 - 1)"
    unfolding ff_digest_def by (rule digest_ff)
  have t: "uncompact (bits example_header) = Inr (65535 * 256 ^ 26)"
    by (simp add: example_header_def uncompact_4 big_endian_def)
  from calculate_hash_proof_of_work[where sha_impl = ff_digest, OF m d t] show ?thesis by simp
qed

text \<open>
  C9. Whatever calculate_hash returns, value or error, the header it leaves behind has the
  version, previousblockhash, merkleroot, time, bits and nonce (and height) it had
  before: only the hash field can differ.
\<close>

theorem calculate_hash_frame:
  fixes self :: "'tm BlockHeader"
  shows "version (snd (calculate_hash sha_impl mktime self)) = version self
       \<and> previousblockhash (snd (calculate_hash sha_impl mktime self)) = previousblockhash self
       \<and> merkleroot (snd (calculate_hash sha_impl mktime self)) = merkleroot self
       \<and> time (snd (calculate_hash sha_impl mktime self)) = time self
       \<and> bits (snd (calculate_hash sha_impl mktime self)) = bits self
       \<and> nonce (snd (calculate_hash sha_impl mktime self)) = nonce self
       \<and> height (snd (calculate_hash sha_impl mktime self)) = height self"
  by (simp add: calculate_hash_def Let_def split: sum.splits)

subsection \<open>The compact codec\<close>

text \<open>
  C2. \<^verbatim>\<open>uncompact(compact(1))\<close>: \<^verbatim>\<open>compact\<close> returns \<open>[1, 1, 0, 0]\<close>, one significant byte
  and two bytes of padding; \<^verbatim>\<open>uncompact\<close> pads mantissas that are too short but never cuts
  one that is too long, reads all three bytes and returns 65536, not 1.
\<close>

theorem round_trip_one: "round_trip 1 = Some (Inr 65536)"
  by code_simp

text \<open>
  C3. On the 4-byte input \<open>[1, 1, 0, 0]\<close>, whose length byte is below 3, \<^verbatim>\<open>uncompact\<close>
  returns 65536, the number of all three mantissa bytes; cutting the mantissa to its
  first byte, as the claim describes, gives 1.
\<close>

theorem uncompact_short_length_not_truncated:
  "uncompact [1, 1, 0, 0] = Inr 65536 \<and> uncompact_spec [1, 1, 0, 0] = 1"
  by (simp add: uncompact_4 uncompact_spec_def big_endian_def)

text \<open>
  C5. \<^verbatim>\<open>compact(0)\<close>: the loop body never runs, the list stays empty and
  \<^verbatim>\<open>base256[0]\<close> raises IndexError; no 4-byte value is returned.
\<close>

theorem compact_zero_raises: "compact 0 = Some (Inl IndexError)"
  by code_simp

subsection \<open>Difficulty\<close>

text \<open>
  C6, as stated, for zero and for every negative difficulty. With difficulty \<open>-1\<close> and the
  default precision the quotient is \<open>- MAX_TARGET\<close>, nothing is raised, and the loop of
  \<^verbatim>\<open>compact\<close> divides a negative number by 256 for ever, its list growing at every turn:
  the call does not return, and no division-by-zero error is raised.
\<close>

theorem difficulty_to_bits_negative_diverges:
  "difficulty_to_bits (- 1) \<lparr>prec = 28\<rparr> = None"
proof -
  have ex: "decimal_fix 78 (of_int (- MAX_TARGET)) = of_int (- MAX_TARGET)"
    by (rule decimal_fix_int) (simp add: MAX_TARGET_eq)
  have "decimal_divide \<lparr>prec = 78\<rparr> (of_int MAX_TARGET) (- 1) = Inr (of_int (- MAX_TARGET))"
    using ex by (simp add: decimal_divide_def)
  moreover have "compact (of_int (- MAX_TARGET)) = None"
    using compact_loop_negative[of "- MAX_TARGET" "[]"] MAX_TARGET_pos
    by (simp add: compact_def)
  ultimately show ?thesis
    by (simp add: difficulty_to_bits_def with_enough_decimal_precision_def enter_28)
qed

text \<open>
  C6, amended. With difficulty zero, \<^verbatim>\<open>difficulty_to_bits\<close> returns, and what it returns
  is the decimal module's division-by-zero error, in every decimal context.
\<close>

theorem difficulty_to_bits_zero_raises:
  "difficulty_to_bits 0 ctx = Some (Inl DivisionByZero, ctx\<lparr>prec := max (prec ctx) 78\<rparr>)"
  by (simp add: difficulty_to_bits_zero enter_snd)

text \<open>
  C7. A call that fails leaves the raised precision in force. Under the default context
  of 28 digits, \<^verbatim>\<open>bits_to_difficulty\<close> on bits with a zero mantissa and
  \<^verbatim>\<open>difficulty_to_bits(0)\<close> both raise the division-by-zero error, and the context
  afterwards has 78 digits: the exception leaves the generator at its \<^verbatim>\<open>yield\<close>, and the
  statement that restores the saved context is not reached.
\<close>

theorem precision_not_restored_on_error:
  "bits_to_difficulty [3, 0, 0, 0] \<lparr>prec = 28\<rparr> = Some (Inl DivisionByZero, \<lparr>prec = 78\<rparr>)
   \<and> difficulty_to_bits 0 \<lparr>prec = 28\<rparr> = Some (Inl DivisionByZero, \<lparr>prec = 78\<rparr>)"
  by (simp add: bits_to_difficulty_zero difficulty_to_bits_zero uncompact_3000 enter_28)




text \<open>
  C10. For every 4-byte bits whose decoded target is zero, \<^verbatim>\<open>bits_to_difficulty\<close> returns
  no difficulty: it raises the decimal module's division-by-zero error (and leaves the
  context at the raised precision).
\<close>

theorem bits_to_difficulty_zero_target:
  assumes "length b = 4" and "uncompact b = Inr 0"
  shows "bits_to_difficulty b ctx
    = Some (Inl DivisionByZero, ctx\<lparr>prec := max (prec ctx) 78\<rparr>)"
  using assms(2) by (simp add: bits_to_difficulty_zero enter_snd)

theorem bits_to_difficulty_zero_target_witness:
  "bits_to_difficulty [3, 0, 0, 0] \<lparr>prec = 100\<rparr> = Some (Inl DivisionByZero, \<lparr>prec = 100\<rparr>)"
  using bits_to_difficulty_zero_target[of "[3, 0, 0, 0]" "\<lparr>prec = 100\<rparr>"] uncompact_3000
  by simp

end
